theory Spec2Isabelle
  imports Main "HOL-Library.AList"
begin

section \<open>Failures and task bodies\<close>

text \<open>
  Modelled from the spec: the class \<^verbatim>\<open>KnownError\<close>, which \<^verbatim>\<open>JobStore.ts\<close> imports
  from \<^verbatim>\<open>../error\<close>. The spec's ErrorClassification is
  \<^verbatim>\<open>{ retryable: bool, maxRetries: integer, kind: string }\<close>, and a failure that does not
  declare it is unclassified. The executor tests \<^verbatim>\<open>instanceof KnownError\<close> and reads
  \<^verbatim>\<open>retryable\<close> and \<^verbatim>\<open>maxRetries\<close>; the kind, name and message only reach the logger and
  are left out. So an error is a \<^verbatim>\<open>KnownError\<close> with these two fields, or anything else
  that was thrown.
\<close>

datatype error = KnownError (retryable: bool) (maxRetries: int) | OtherError

text \<open>
  A task body is a closure \<^verbatim>\<open>() => Promise<T>\<close>. The retry executor discards the value
  it resolves with, so a call of the task body has one of three outcomes: the promise is
  fulfilled, it is rejected with an error (a body that throws before it returns a promise
  is caught by the same \<^verbatim>\<open>try\<close>), or it never settles.
\<close>

datatype outcome = Fulfilled | Rejected error | Pending

text \<open>
  The k-th invocation of the closure (counted from 0) has the outcome \<open>task k\<close>: every
  behaviour of an opaque closure over successive calls is such a function.
\<close>

type_synonym task = "nat \<Rightarrow> outcome"

text \<open>
  What an execution does that can be observed from outside: it calls the task body, it
  suspends on \<^verbatim>\<open>sleep(ms)\<close>, it writes to the logger.
\<close>

datatype effect = Invoke | Sleep int | LogInfo | LogWarn int | LogError

fun instanceofKnownError :: "error \<Rightarrow> bool" where
  "instanceofKnownError (KnownError r m) = True"
| "instanceofKnownError OtherError = False"

section \<open>The retry executor\<close>

text \<open>
  \<^verbatim>\<open>JobStore.executeTaskWithRetry(task, logger, retryCount)\<close>. The argument \<open>k\<close> is the
  number of calls of the task body made so far; \<open>retryCount\<close> is the source's parameter,
  a JavaScript number that \<^verbatim>\<open>addJob\<close> passes through from its caller (default 0). The result
  is the state of the returned promise and the effects in the order they happen.
\<close>

function executeTaskWithRetry :: "task \<Rightarrow> nat \<Rightarrow> int \<Rightarrow> outcome \<times> effect list" where
  "executeTaskWithRetry task k retryCount =
     (case task k of
        Fulfilled \<Rightarrow> (Fulfilled, [Invoke])
      | Pending \<Rightarrow> (Pending, [Invoke])
      | Rejected err \<Rightarrow>
          if instanceofKnownError err \<and> \<not> retryable err then
            (Rejected err, [Invoke, LogError])
          else if instanceofKnownError err \<and> retryable err \<and> retryCount + 1 \<ge> maxRetries err then
            (Rejected err, [Invoke, LogError])
          else if retryCount + 1 < 3 then
            (case executeTaskWithRetry task (Suc k) (retryCount + 1) of
               (res, effs) \<Rightarrow>
                 (res, [Invoke, Sleep ((retryCount + 1) * 30000)]
                        @ (if retryCount + 1 \<noteq> 0 then [LogWarn (retryCount + 1)] else [])
                        @ effs))
          else
            (Rejected err, [Invoke, Sleep ((retryCount + 1) * 30000)]))"
  by pat_completeness auto
termination
  by (relation "measure (\<lambda>(task, k, retryCount). nat (3 - retryCount))") auto

text \<open>The number of times an execution called the task body.\<close>

definition invocations :: "effect list \<Rightarrow> nat" where
  "invocations effs = length (filter (\<lambda>e. e = Invoke) effs)"

section \<open>The job store\<close>

text \<open>
  \<^verbatim>\<open>JobInfo\<close> and the fields of \<^verbatim>\<open>class JobStore\<close>. The registry is a JavaScript
  \<^verbatim>\<open>Map\<close>, which keeps its keys in insertion order: an association list, written with
  \<open>AList.update\<close> (\<^verbatim>\<open>Map.set\<close>: replace in place or append) and \<open>AList.delete\<close>
  (\<^verbatim>\<open>Map.delete\<close>). \<^verbatim>\<open>startedAt\<close> is the clock reading in milliseconds; the metadata
  is opaque.
\<close>

record 'm JobInfo =
  jobId :: string
  startedAt :: int
  metadata :: "'m option"

record 'm JobStore =
  jobs :: "(string \<times> 'm JobInfo) list"
  maxConcurrent :: int
  shutdownRequested :: bool

text \<open>\<^verbatim>\<open>constructor(maxConcurrent = 3)\<close>\<close>

definition newJobStore :: "int \<Rightarrow> 'm JobStore" where
  "newJobStore n = \<lparr>jobs = [], maxConcurrent = n, shutdownRequested = False\<rparr>"

text \<open>\<^verbatim>\<open>this.jobs.size\<close>\<close>

definition jobsSize :: "'m JobStore \<Rightarrow> int" where
  "jobsSize s = int (length (jobs s))"

definition isBusy :: "'m JobStore \<Rightarrow> bool" where
  "isBusy s = (jobsSize s \<ge> maxConcurrent s)"

definition isFull :: "'m JobStore \<Rightarrow> bool" where
  "isFull s = (jobsSize s \<ge> maxConcurrent s)"

definition getActiveCount :: "'m JobStore \<Rightarrow> int" where
  "getActiveCount s = jobsSize s"

definition getMaxConcurrent :: "'m JobStore \<Rightarrow> int" where
  "getMaxConcurrent s = maxConcurrent s"

definition getActiveJobs :: "'m JobStore \<Rightarrow> 'm JobInfo list" where
  "getActiveJobs s = map snd (jobs s)"

definition isShutdownRequested :: "'m JobStore \<Rightarrow> bool" where
  "isShutdownRequested s = shutdownRequested s"

definition requestShutdown :: "'m JobStore \<Rightarrow> 'm JobStore" where
  "requestShutdown s = s\<lparr>shutdownRequested := True\<rparr>"

subsection \<open>Admission and the detached execution\<close>

text \<open>
  \<^verbatim>\<open>addJob\<close> touches more than the store: it starts the execution of the task, which
  runs detached from the caller, and it writes to the logger. The process is therefore the
  store, the executions that were started and have not settled yet (job id, task body,
  initial retry count), and everything done so far that is visible outside.
\<close>

record 'm process =
  store :: "'m JobStore"
  running :: "(string \<times> task \<times> int) list"
  effects :: "effect list"

definition newProcess :: "int \<Rightarrow> 'm process" where
  "newProcess n = \<lparr>store = newJobStore n, running = [], effects = []\<rparr>"

text \<open>
  \<^verbatim>\<open>addJob(jobId, task, logger, metadata, retryCount)\<close>, up to its \<^verbatim>\<open>return\<close>; \<open>now\<close>
  is what \<^verbatim>\<open>new Date()\<close> reads. The function has no \<^verbatim>\<open>await\<close>, so it runs as one
  step. The callbacks attached with \<^verbatim>\<open>then\<close>, \<^verbatim>\<open>catch\<close> and \<^verbatim>\<open>finally\<close> run only after
  the execution settles: they are \<open>onSettled\<close> below.
\<close>

definition addJob ::
  "string \<Rightarrow> task \<Rightarrow> 'm option \<Rightarrow> int \<Rightarrow> int \<Rightarrow> 'm process \<Rightarrow> bool \<times> 'm process" where
  "addJob jid task meta retryCount now p =
     (if jobsSize (store p) \<ge> maxConcurrent (store p) \<or> shutdownRequested (store p) then
        (False, p)
      else
        (True,
         p\<lparr>store := (store p)\<lparr>jobs :=
              AList.update jid \<lparr>jobId = jid, startedAt = now, metadata = meta\<rparr> (jobs (store p))\<rparr>,
           running := running p @ [(jid, task, retryCount)],
           effects := effects p @ [LogInfo]\<rparr>))"

text \<open>
  The three callbacks of the chain
  \<^verbatim>\<open>executeTaskWithRetry(...).then(f).catch(g).finally(h)\<close>: \<open>f\<close> logs the success,
  \<open>g\<close> logs the error (one of two messages, by \<^verbatim>\<open>instanceof KnownError\<close>) and then the
  metric line, \<open>h\<close> deletes the job.
\<close>

definition thenCallback :: "'m process \<Rightarrow> 'm process" where
  "thenCallback p = p\<lparr>effects := effects p @ [LogInfo]\<rparr>"

definition catchCallback :: "error \<Rightarrow> 'm process \<Rightarrow> 'm process" where
  "catchCallback err p =
     (if instanceofKnownError err then p\<lparr>effects := effects p @ [LogError, LogError]\<rparr>
      else p\<lparr>effects := effects p @ [LogError, LogError]\<rparr>)"

definition finallyCallback :: "string \<Rightarrow> 'm process \<Rightarrow> 'm process" where
  "finallyCallback jid p = p\<lparr>store := (store p)\<lparr>jobs := AList.delete jid (jobs (store p))\<rparr>\<rparr>"

text \<open>
  What the chain does once the promise of \<^verbatim>\<open>executeTaskWithRetry\<close> has the state
  \<open>res\<close>: a pending promise runs no callback; \<^verbatim>\<open>then\<close> runs on fulfilment, \<^verbatim>\<open>catch\<close> on
  rejection, \<^verbatim>\<open>finally\<close> after either.
\<close>

fun onSettled :: "string \<Rightarrow> outcome \<Rightarrow> 'm process \<Rightarrow> 'm process" where
  "onSettled jid Pending p = p"
| "onSettled jid Fulfilled p = finallyCallback jid (thenCallback p)"
| "onSettled jid (Rejected err) p = finallyCallback jid (catchCallback err p)"

text \<open>Dropping the i-th entry of a list.\<close>

definition dropAt :: "nat \<Rightarrow> 'a list \<Rightarrow> 'a list" where
  "dropAt i xs = take i xs @ drop (Suc i) xs"

text \<open>
  The i-th running execution comes to its end: the task body is called from its first
  invocation under the retry executor, and if the resulting promise settles the callbacks
  run and the execution is over. An execution whose task body never settles stays. What
  the execution did (calls, sleeps, log lines) is entered in \<open>effects\<close> at this moment,
  as one block; the logger calls and \<^verbatim>\<open>getErrorType\<close> in the callbacks return normally.
\<close>

definition settle :: "nat \<Rightarrow> 'm process \<Rightarrow> 'm process" where
  "settle i p =
     (if i < length (running p) then
        (case running p ! i of (jid, task, retryCount) \<Rightarrow>
           (case executeTaskWithRetry task 0 retryCount of (res, effs) \<Rightarrow>
              if res = Pending then p
              else onSettled jid res (p\<lparr>running := dropAt i (running p), effects := effects p @ effs\<rparr>)))
      else p)"

text \<open>
  Everything that changes the process: an admission request, the end of a running
  execution, a shutdown request. A run is a sequence of these, in any order.
\<close>

datatype 'm action =
    AddJob string task "'m option" int int
  | Settle nat
  | RequestShutdown

fun step :: "'m process \<Rightarrow> 'm action \<Rightarrow> 'm process" where
  "step p (AddJob jid task meta retryCount now) = snd (addJob jid task meta retryCount now p)"
| "step p (Settle i) = settle i p"
| "step p RequestShutdown = p\<lparr>store := requestShutdown (store p)\<rparr>"

definition run :: "'m action list \<Rightarrow> 'm process \<Rightarrow> 'm process" where
  "run acts p = foldl step p acts"

text \<open>A batch of admission requests made one after the other, with their answers.\<close>

fun addJobs ::
  "(string \<times> task \<times> 'm option \<times> int \<times> int) list \<Rightarrow> 'm process \<Rightarrow> bool list \<times> 'm process" where
  "addJobs [] p = ([], p)"
| "addJobs ((jid, task, meta, retryCount, now) # reqs) p =
     (case addJob jid task meta retryCount now p of
        (ok, p') \<Rightarrow> (case addJobs reqs p' of (oks, p'') \<Rightarrow> (ok # oks, p'')))"

text \<open>Every registered job id belongs to an execution that has not ended.\<close>

definition registeredRunning :: "'m process \<Rightarrow> bool" where
  "registeredRunning p = (fst ` set (jobs (store p)) \<subseteq> fst ` set (running p))"

subsection \<open>Draining\<close>

text \<open>
  \<^verbatim>\<open>waitForCompletion\<close> reads the registry at the call and then once per timer, while
  the rest of the process goes on between the timers: \<open>obs 0\<close> is the store at the call,
  \<open>obs k\<close> the store when the k-th \<^verbatim>\<open>setTimeout(checkCompletion, 1000)\<close> fires.
  \<open>checkCompletion obs timers\<close> is the closure of that name, called after the timers
  with the delays \<open>timers\<close> have fired; the result is the delays of all the timers that
  were awaited when the promise is resolved, and \<open>None\<close> when it never is.
\<close>

partial_function (option) checkCompletion ::
  "(nat \<Rightarrow> 'm JobStore) \<Rightarrow> int list \<Rightarrow> int list option" where
  "checkCompletion obs timers =
     (if jobsSize (obs (length timers)) = 0 then Some timers
      else checkCompletion obs (timers @ [1000]))"

definition waitForCompletion :: "(nat \<Rightarrow> 'm JobStore) \<Rightarrow> int list option" where
  "waitForCompletion obs =
     (if jobsSize (obs 0) = 0 then Some [] else checkCompletion obs [])"

section \<open>Waiting in the Zoom lobby\<close>

text \<open>
  \<^verbatim>\<open>ZoomBot.joinMeeting\<close> builds \<^verbatim>\<open>waitAtLobbyPromise\<close> from a one-shot timer
  (\<^verbatim>\<open>waitTimeout\<close>) and a repeating one (\<^verbatim>\<open>waitInterval\<close>). The state is which of the
  two timers is still armed, the value the promise was resolved with if it was, how many
  times the interval callback was started, and how many of these calls have not finished:
  the callback is \<^verbatim>\<open>async\<close> and awaits the page, so a call ends in a later turn than the
  one it started in, and calls can overlap.
\<close>

record lobbyWait =
  waitTimeout :: bool
  waitInterval :: bool
  resolved :: "bool option"
  checksStarted :: nat
  checksInFlight :: nat

text \<open>
  How one call of the interval callback ends: in the last \<^verbatim>\<open>else\<close> branch, where the
  footer shows a participant count other than 0 (\<open>Ready\<close>); by one of the early
  \<^verbatim>\<open>return\<close>s or in the branch that logs that the host is awaited (\<open>NotReady\<close>); or in the
  \<^verbatim>\<open>catch\<close> block, which does nothing (\<open>Faulted\<close>).
\<close>

datatype checkResult = Ready | NotReady | Faulted

datatype timerEvent = TimeoutFires | IntervalFires | CheckCompletes checkResult

text \<open>A promise keeps the first value it is resolved with.\<close>

definition resolveMe :: "bool \<Rightarrow> lobbyWait \<Rightarrow> lobbyWait" where
  "resolveMe v s = (case resolved s of None \<Rightarrow> s\<lparr>resolved := Some v\<rparr> | Some u \<Rightarrow> s)"

definition clearInterval :: "lobbyWait \<Rightarrow> lobbyWait" where
  "clearInterval s = s\<lparr>waitInterval := False\<rparr>"

definition clearTimeout :: "lobbyWait \<Rightarrow> lobbyWait" where
  "clearTimeout s = s\<lparr>waitTimeout := False\<rparr>"

text \<open>The state when the executor of \<^verbatim>\<open>new Promise\<close> returns: both timers set.\<close>

definition waitAtLobbyPromise :: lobbyWait where
  "waitAtLobbyPromise =
     \<lparr>waitTimeout = True, waitInterval = True, resolved = None,
      checksStarted = 0, checksInFlight = 0\<rparr>"

text \<open>
  One turn of the event loop. A timer fires only while it is armed, and a call of the
  callback ends only if one is in flight; otherwise the event cannot happen (\<open>None\<close>).
  A one-shot timer is spent once it has fired.
\<close>

fun lobbyStep :: "timerEvent \<Rightarrow> lobbyWait \<Rightarrow> lobbyWait option" where
  "lobbyStep TimeoutFires s =
     (if waitTimeout s then Some (resolveMe False (clearInterval (s\<lparr>waitTimeout := False\<rparr>)))
      else None)"
| "lobbyStep IntervalFires s =
     (if waitInterval s then
        Some (s\<lparr>checksStarted := Suc (checksStarted s), checksInFlight := Suc (checksInFlight s)\<rparr>)
      else None)"
| "lobbyStep (CheckCompletes r) s =
     (if checksInFlight s = 0 then None
      else (case r of
              Ready \<Rightarrow> Some (resolveMe True (clearTimeout (clearInterval
                         (s\<lparr>checksInFlight := checksInFlight s - 1\<rparr>))))
            | NotReady \<Rightarrow> Some (s\<lparr>checksInFlight := checksInFlight s - 1\<rparr>)
            | Faulted \<Rightarrow> Some (s\<lparr>checksInFlight := checksInFlight s - 1\<rparr>)))"

fun lobbyRun :: "timerEvent list \<Rightarrow> lobbyWait \<Rightarrow> lobbyWait option" where
  "lobbyRun [] s = Some s"
| "lobbyRun (e # es) s = (case lobbyStep e s of None \<Rightarrow> None | Some s' \<Rightarrow> lobbyRun es s')"

text \<open>
  Each timer is armed exactly as long as the promise is unresolved; the runs below keep
  this true.
\<close>

definition timersMatch :: "lobbyWait \<Rightarrow> bool" where
  "timersMatch s = (waitTimeout s = (resolved s = None) \<and> waitInterval s = (resolved s = None))"

text \<open>The two events that call \<^verbatim>\<open>resolveMe\<close>.\<close>

definition resolving :: "timerEvent \<Rightarrow> bool" where
  "resolving e = (e = TimeoutFires \<or> e = CheckCompletes Ready)"

section \<open>Waiting for device notifications\<close>

text \<open>
  \<^verbatim>\<open>ZoomBot.dismissDeviceNotifications\<close> uses the same pair of timers around a
  \<^verbatim>\<open>Promise<void>\<close>: the state is which timers are armed, whether the promise is
  resolved, the flag \<^verbatim>\<open>foundAny\<close>, the calls of the interval callback started, those
  that still await \<^verbatim>\<open>getByLabel('close').all()\<close>, and those that are clicking the
  buttons they found.
\<close>

record notifyWait =
  notifyTimeout :: bool
  notifyInterval :: bool
  notifyResolved :: bool
  foundAny :: bool
  pollsStarted :: nat
  pollsInFlight :: nat
  pollsClicking :: nat

text \<open>
  What a call of the interval callback sees when \<^verbatim>\<open>all()\<close> returns: close buttons, none,
  or a fault, which the \<^verbatim>\<open>catch\<close> block ignores.
\<close>

datatype pollResult = ButtonsFound | NoButtons | PollFaulted

text \<open>
  The turns of the event loop: a timer fires; a call of the callback gets the answer of
  \<^verbatim>\<open>all()\<close>; a call that found buttons comes to the end of its clicks (by finishing them
  or by a fault that is caught).
\<close>

datatype notifyEvent =
    NotifyTimeoutFires
  | NotifyIntervalFires
  | PollSees pollResult
  | ClicksEnd

definition notifyPromise :: notifyWait where
  "notifyPromise =
     \<lparr>notifyTimeout = True, notifyInterval = True, notifyResolved = False, foundAny = False,
      pollsStarted = 0, pollsInFlight = 0, pollsClicking = 0\<rparr>"

text \<open>
  A call that sees buttons sets \<^verbatim>\<open>foundAny\<close> in that turn, before it awaits the first
  click, so a later call can see the flag while the clicks are still going on. A call
  that sees no button ends; if the flag is set it clears both timers and resolves.
\<close>

fun notifyStep :: "notifyEvent \<Rightarrow> notifyWait \<Rightarrow> notifyWait option" where
  "notifyStep NotifyTimeoutFires s =
     (if notifyTimeout s then
        Some (s\<lparr>notifyTimeout := False, notifyInterval := False, notifyResolved := True\<rparr>)
      else None)"
| "notifyStep NotifyIntervalFires s =
     (if notifyInterval s then
        Some (s\<lparr>pollsStarted := Suc (pollsStarted s), pollsInFlight := Suc (pollsInFlight s)\<rparr>)
      else None)"
| "notifyStep (PollSees r) s =
     (if pollsInFlight s = 0 then None
      else (case r of
              ButtonsFound \<Rightarrow>
                Some (s\<lparr>pollsInFlight := pollsInFlight s - 1, foundAny := True,
                        pollsClicking := Suc (pollsClicking s)\<rparr>)
            | NoButtons \<Rightarrow>
                if foundAny s then
                  Some (s\<lparr>pollsInFlight := pollsInFlight s - 1, notifyInterval := False,
                          notifyTimeout := False, notifyResolved := True\<rparr>)
                else Some (s\<lparr>pollsInFlight := pollsInFlight s - 1\<rparr>)
            | PollFaulted \<Rightarrow> Some (s\<lparr>pollsInFlight := pollsInFlight s - 1\<rparr>)))"
| "notifyStep ClicksEnd s =
     (if pollsClicking s = 0 then None
      else Some (s\<lparr>pollsClicking := pollsClicking s - 1\<rparr>))"

fun notifyRun :: "notifyEvent list \<Rightarrow> notifyWait \<Rightarrow> notifyWait option" where
  "notifyRun [] s = Some s"
| "notifyRun (e # es) s = (case notifyStep e s of None \<Rightarrow> None | Some s' \<Rightarrow> notifyRun es s')"

text \<open>Both timers are armed exactly as long as the promise is unresolved.\<close>

definition notifyTimersMatch :: "notifyWait \<Rightarrow> bool" where
  "notifyTimersMatch s =
     (notifyTimeout s = (\<not> notifyResolved s) \<and> notifyInterval s = (\<not> notifyResolved s))"

section \<open>Properties of the retry executor\<close>

lemmas executeTaskWithRetry_unfold = executeTaskWithRetry.simps

declare executeTaskWithRetry.simps [simp del]

lemma exec_propagates_at_cap:
  assumes "task k = Rejected (KnownError True m)" and "m \<le> r + 1 \<or> 3 \<le> r + 1"
  shows "fst (executeTaskWithRetry task k r) = Rejected (KnownError True m)
       \<and> invocations (snd (executeTaskWithRetry task k r)) = 1"
  using assms by (auto simp add: executeTaskWithRetry_unfold [of task k r] invocations_def)

lemma exec_retries_below_cap:
  assumes "task k = Rejected (KnownError True m)" and "r + 1 < m" and "r + 1 < 3"
  shows "fst (executeTaskWithRetry task k r) = fst (executeTaskWithRetry task (Suc k) (r + 1))
       \<and> invocations (snd (executeTaskWithRetry task k r))
           = Suc (invocations (snd (executeTaskWithRetry task (Suc k) (r + 1))))"
  using assms
  by (auto simp add: executeTaskWithRetry_unfold [of task k r] invocations_def split: prod.splits)

lemma invocations_pos: "1 \<le> invocations (snd (executeTaskWithRetry task k r))"
  by (subst executeTaskWithRetry_unfold)
     (auto simp add: invocations_def split: outcome.splits prod.splits)

text \<open>
  C8. A task whose failure is a \<^verbatim>\<open>KnownError\<close> marked \<^verbatim>\<open>retryable = false\<close> is called
  exactly once: the executor logs and re-throws at once, with no wait, whatever the
  retry count it was started with and whatever \<^verbatim>\<open>maxRetries\<close> the error declares.
\<close>

theorem non_retryable_invoked_once:
  assumes "task k = Rejected (KnownError False m)"
  shows "executeTaskWithRetry task k retryCount = (Rejected (KnownError False m), [Invoke, LogError])
       \<and> invocations (snd (executeTaskWithRetry task k retryCount)) = 1"
  using assms by (simp add: executeTaskWithRetry_unfold invocations_def)

theorem non_retryable_invoked_once_witness:
  "executeTaskWithRetry (\<lambda>k. Rejected (KnownError False 5)) 0 0
     = (Rejected (KnownError False 5), [Invoke, LogError])
   \<and> invocations (snd (executeTaskWithRetry (\<lambda>k. Rejected (KnownError False 5)) 0 0)) = 1"
  using non_retryable_invoked_once [of "\<lambda>k. Rejected (KnownError False 5)" 0 5 0]
  by (simp add: invocations_def)

text \<open>
  C5. A task whose every invocation fails with an error that is not a \<^verbatim>\<open>KnownError\<close>,
  run from retry count 0, is called exactly three times: the executor sleeps 30000 ms
  between the first and the second call and 60000 ms between the second and the third,
  and the promise is rejected with the error of the third call. (The trace also shows
  what the code does between the third call and the rejection.)
\<close>

theorem unclassified_three_invocations:
  assumes "\<And>k. k < 3 \<Longrightarrow> task k = Rejected OtherError"
  shows "executeTaskWithRetry task 0 0 =
           (Rejected OtherError,
            [Invoke, Sleep 30000, LogWarn 1, Invoke, Sleep 60000, LogWarn 2, Invoke, Sleep 90000])
       \<and> invocations (snd (executeTaskWithRetry task 0 0)) = 3"
proof -
  have t0: "task 0 = Rejected OtherError" and t1: "task (Suc 0) = Rejected OtherError"
    and t2: "task (Suc (Suc 0)) = Rejected OtherError"
    using assms by simp_all
  have e2: "executeTaskWithRetry task (Suc (Suc 0)) 2 = (Rejected OtherError, [Invoke, Sleep 90000])"
    by (subst executeTaskWithRetry_unfold) (simp add: t2)
  have e1: "executeTaskWithRetry task (Suc 0) 1 =
              (Rejected OtherError, [Invoke, Sleep 60000, LogWarn 2, Invoke, Sleep 90000])"
    by (subst executeTaskWithRetry_unfold) (simp add: t1 e2)
  have e0: "executeTaskWithRetry task 0 0 =
              (Rejected OtherError,
               [Invoke, Sleep 30000, LogWarn 1, Invoke, Sleep 60000, LogWarn 2, Invoke, Sleep 90000])"
    by (subst executeTaskWithRetry_unfold) (simp add: t0 e1)
  show ?thesis by (simp add: e0 invocations_def)
qed

theorem unclassified_three_invocations_witness:
  "executeTaskWithRetry (\<lambda>k. Rejected OtherError) 0 0 =
           (Rejected OtherError,
            [Invoke, Sleep 30000, LogWarn 1, Invoke, Sleep 60000, LogWarn 2, Invoke, Sleep 90000])
       \<and> invocations (snd (executeTaskWithRetry (\<lambda>k. Rejected OtherError) 0 0)) = 3"
  using unclassified_three_invocations [of "\<lambda>k. Rejected OtherError"]
  by (simp add: invocations_def)

text \<open>
  C6. The source increments \<^verbatim>\<open>retryCount\<close>, then awaits
  \<^verbatim>\<open>sleep(retryCount * 30000)\<close>, and only then tests \<^verbatim>\<open>retryCount < 3\<close>. So on the
  path where the global cap is reached the executor still sleeps, 90000 ms, after the
  last call of the task and before it re-throws: an execution entered at retry count 2
  calls the task once, sleeps and fails, and the last effect of a full run from retry
  count 0 is that sleep, with no call of the task after it.
\<close>

theorem exhausted_path_sleeps_before_throw:
  "executeTaskWithRetry (\<lambda>k. Rejected OtherError) 2 2 = (Rejected OtherError, [Invoke, Sleep 90000])
   \<and> last (snd (executeTaskWithRetry (\<lambda>k. Rejected OtherError) 0 0)) = Sleep 90000"
  by (simp add: executeTaskWithRetry_unfold)

text \<open>
  How often a task is called whose every invocation fails with a \<^verbatim>\<open>KnownError\<close> marked
  retryable with \<^verbatim>\<open>maxRetries = m\<close>, run from retry count 0: \<open>min m 3\<close> times (once when
  \<open>m\<close> is below 1, since the classification is only known once a call has failed), so
  twice for \<open>m = 2\<close>, with one sleep of 30000 ms between the calls. At any retry count
  \<open>r\<close> no further call follows a failure where \<open>r + 1\<close> has reached \<open>m\<close> or 3, and
  another call follows otherwise.
\<close>

lemma retryable_capped:
  assumes "\<And>k. task k = Rejected (KnownError True m)"
  shows "fst (executeTaskWithRetry task 0 0) = Rejected (KnownError True m)
       \<and> invocations (snd (executeTaskWithRetry task 0 0)) = nat (max 1 (min m 3))
       \<and> (m = 2 \<longrightarrow> snd (executeTaskWithRetry task 0 0)
                      = [Invoke, Sleep 30000, LogWarn 1, Invoke, LogError])
       \<and> (m \<le> r + 1 \<or> 3 \<le> r + 1 \<longrightarrow> invocations (snd (executeTaskWithRetry task k r)) = 1)
       \<and> (r + 1 < m \<and> r + 1 < 3 \<longrightarrow> 2 \<le> invocations (snd (executeTaskWithRetry task k r)))"
proof -
  have P: "fst (executeTaskWithRetry task k r) = Rejected (KnownError True m)
       \<and> invocations (snd (executeTaskWithRetry task k r)) = 1" if "m \<le> r + 1 \<or> 3 \<le> r + 1" for k r
    using exec_propagates_at_cap [of task k m r] assms that by blast
  have R: "fst (executeTaskWithRetry task k r) = fst (executeTaskWithRetry task (Suc k) (r + 1))
       \<and> invocations (snd (executeTaskWithRetry task k r))
           = Suc (invocations (snd (executeTaskWithRetry task (Suc k) (r + 1))))"
    if "r + 1 < m" and "r + 1 < 3" for k r
    using exec_retries_below_cap [of task k m r] assms that by blast
  have count: "fst (executeTaskWithRetry task 0 0) = Rejected (KnownError True m)
       \<and> invocations (snd (executeTaskWithRetry task 0 0)) = nat (max 1 (min m 3))"
  proof -
    consider "m \<le> 1" | "m = 2" | "3 \<le> m" by linarith
    then show ?thesis
    proof cases
      case 1
      then show ?thesis using P [where r=0 and k=0] by simp
    next
      case 2
      then show ?thesis using R [where r=0 and k=0] P [where r=1 and k="Suc 0"] by simp
    next
      case 3
      then show ?thesis using R [where r=0 and k=0] R [where r=1 and k="Suc 0"] P [where r=2 and k="Suc (Suc 0)"] by simp
    qed
  qed
  have two: "snd (executeTaskWithRetry task 0 0) = [Invoke, Sleep 30000, LogWarn 1, Invoke, LogError]"
    if "m = 2"
  proof -
    have "executeTaskWithRetry task (Suc 0) 1 = (Rejected (KnownError True m), [Invoke, LogError])"
      using that by (simp add: executeTaskWithRetry_unfold [of task "Suc 0" 1] assms)
    then show ?thesis
      using that by (simp add: executeTaskWithRetry_unfold [of task 0 0] assms)
  qed
  have more: "2 \<le> invocations (snd (executeTaskWithRetry task k r))" if "r + 1 < m \<and> r + 1 < 3"
    using R [where r=r and k=k] that invocations_pos [of task "Suc k" "r + 1"] by simp
  show ?thesis using count two P [where r=r and k=k] more by blast
qed

lemma retryable_capped_two:
  "fst (executeTaskWithRetry (\<lambda>k. Rejected (KnownError True 2)) 0 0) = Rejected (KnownError True 2)
   \<and> invocations (snd (executeTaskWithRetry (\<lambda>k. Rejected (KnownError True 2)) 0 0)) = 2
   \<and> snd (executeTaskWithRetry (\<lambda>k. Rejected (KnownError True 2)) 0 0)
       = [Invoke, Sleep 30000, LogWarn 1, Invoke, LogError]
   \<and> invocations (snd (executeTaskWithRetry (\<lambda>k. Rejected (KnownError True 2)) 1 1)) = 1
   \<and> 2 \<le> invocations (snd (executeTaskWithRetry (\<lambda>k. Rejected (KnownError True 2)) 0 0))"
  using retryable_capped [where task="\<lambda>k. Rejected (KnownError True 2)" and m=2 and r=1 and k=1]
        retryable_capped [where task="\<lambda>k. Rejected (KnownError True 2)" and m=2 and r=0 and k=0]
  by simp



text \<open>
  C7. The number of calls is the smaller of \<^verbatim>\<open>maxRetries\<close> and 3, as the claim says, and
  a failure that reaches the declared \<^verbatim>\<open>maxRetries\<close> is re-thrown at once. A failure that
  reaches the global cap first is not: the source awaits \<^verbatim>\<open>sleep(retryCount * 30000)\<close>
  before it tests \<^verbatim>\<open>retryCount < 3\<close>. With \<^verbatim>\<open>maxRetries = 5\<close> the third call is followed
  by a sleep of 90000 ms and only then by the rejection, where with \<^verbatim>\<open>maxRetries = 3\<close>
  the third call is followed by the rejection directly.
\<close>

theorem retryable_above_cap_sleeps_before_throw:
  "executeTaskWithRetry (\<lambda>k. Rejected (KnownError True 5)) 0 0
     = (Rejected (KnownError True 5),
        [Invoke, Sleep 30000, LogWarn 1, Invoke, Sleep 60000, LogWarn 2, Invoke, Sleep 90000])
   \<and> executeTaskWithRetry (\<lambda>k. Rejected (KnownError True 3)) 0 0
     = (Rejected (KnownError True 3),
        [Invoke, Sleep 30000, LogWarn 1, Invoke, Sleep 60000, LogWarn 2, Invoke, LogError])"
  by (simp add: executeTaskWithRetry_unfold)

section \<open>Properties of the job store\<close>

lemma update_fresh: "k \<notin> fst ` set al \<Longrightarrow> AList.update k v al = al @ [(k, v)]"
  by (induction al) auto

lemma length_update_le: "length (AList.update k v al) \<le> Suc (length al)"
  by (induction al) auto

lemma keys_delete: "k \<notin> fst ` set (AList.delete k al)"
  by (auto simp add: AList.delete_eq)

lemma addJob_rejects:
  "jobsSize (store p) \<ge> maxConcurrent (store p) \<or> shutdownRequested (store p)
   \<Longrightarrow> addJob jid task meta rc now p = (False, p)"
  by (simp add: addJob_def)

lemma addJob_accepts:
  assumes "jobsSize (store p) < maxConcurrent (store p)" and "\<not> shutdownRequested (store p)"
  shows "addJob jid task meta rc now p =
     (True,
      p\<lparr>store := (store p)\<lparr>jobs :=
           AList.update jid \<lparr>jobId = jid, startedAt = now, metadata = meta\<rparr> (jobs (store p))\<rparr>,
        running := running p @ [(jid, task, rc)],
        effects := effects p @ [LogInfo]\<rparr>)"
  using assms by (simp add: addJob_def)

lemma addJob_flags:
  "maxConcurrent (store (snd (addJob jid task meta rc now p))) = maxConcurrent (store p)
   \<and> shutdownRequested (store (snd (addJob jid task meta rc now p))) = shutdownRequested (store p)"
  by (simp add: addJob_def)

lemma addJob_size:
  "jobsSize (store p) \<le> maxConcurrent (store p)
   \<Longrightarrow> jobsSize (store (snd (addJob jid task meta rc now p))) \<le> maxConcurrent (store p)"
  using length_update_le [of jid "\<lparr>jobId = jid, startedAt = now, metadata = meta\<rparr>" "jobs (store p)"]
  by (auto simp add: addJob_def jobsSize_def)

lemma finallyCallback_store:
  "store (finallyCallback jid p) = (store p)\<lparr>jobs := AList.delete jid (jobs (store p))\<rparr>"
  by (simp add: finallyCallback_def)

lemma onSettled_store:
  "res \<noteq> Pending \<Longrightarrow>
   store (onSettled jid res p) = (store p)\<lparr>jobs := AList.delete jid (jobs (store p))\<rparr>"
  by (cases res) (simp_all add: finallyCallback_def thenCallback_def catchCallback_def)

lemma onSettled_running: "running (onSettled jid res p) = running p"
  by (cases res) (simp_all add: finallyCallback_def thenCallback_def catchCallback_def)

lemma settle_cases:
  "settle i p = p \<or>
   (i < length (running p) \<and>
    store (settle i p) = (store p)\<lparr>jobs := AList.delete (fst (running p ! i)) (jobs (store p))\<rparr> \<and>
    running (settle i p) = dropAt i (running p))"
  by (auto simp add: settle_def onSettled_store onSettled_running split: prod.splits)

lemma settle_flags:
  "maxConcurrent (store (settle i p)) = maxConcurrent (store p)
   \<and> shutdownRequested (store (settle i p)) = shutdownRequested (store p)"
  using settle_cases [of i p] by auto

lemma settle_size: "jobsSize (store (settle i p)) \<le> jobsSize (store p)"
  using settle_cases [of i p] AList.length_delete_le [of "fst (running p ! i)" "jobs (store p)"]
  by (auto simp add: jobsSize_def)

lemma step_flags:
  "maxConcurrent (store (step p a)) = maxConcurrent (store p)
   \<and> (shutdownRequested (store p) \<longrightarrow> shutdownRequested (store (step p a)))"
  by (cases a) (simp_all add: addJob_flags settle_flags requestShutdown_def)

lemma step_size:
  assumes "jobsSize (store p) \<le> maxConcurrent (store p)"
  shows "jobsSize (store (step p a)) \<le> maxConcurrent (store (step p a))"
proof (cases a)
  case (AddJob jid task meta rc now)
  then show ?thesis
    using addJob_size [OF assms, of jid task meta rc now] addJob_flags [of jid task meta rc now p]
    by simp
next
  case (Settle i)
  then show ?thesis using assms settle_size [of i p] settle_flags [of i p] by simp
next
  case RequestShutdown
  then show ?thesis using assms by (simp add: requestShutdown_def jobsSize_def)
qed

lemma run_snoc: "run (acts @ [a]) p = step (run acts p) a"
  by (simp add: run_def)

lemma run_Cons: "run (a # acts) p = run acts (step p a)"
  by (simp add: run_def)

lemma run_Nil: "run [] p = p"
  by (simp add: run_def)

lemma run_maxConcurrent: "maxConcurrent (store (run acts p)) = maxConcurrent (store p)"
  by (induction acts rule: rev_induct) (simp_all add: run_Nil run_snoc step_flags)

lemma run_shutdown:
  "shutdownRequested (store p) \<Longrightarrow> shutdownRequested (store (run acts p))"
  by (induction acts rule: rev_induct) (simp_all add: run_Nil run_snoc step_flags)

lemma run_size:
  "jobsSize (store p) \<le> maxConcurrent (store p)
   \<Longrightarrow> jobsSize (store (run acts p)) \<le> maxConcurrent (store (run acts p))"
  by (induction acts rule: rev_induct) (simp_all add: run_Nil run_snoc step_size)

text \<open>
  C2. The number of registered jobs never exceeds \<^verbatim>\<open>maxConcurrent\<close>. Every step
  of the process keeps the bound: \<^verbatim>\<open>addJob\<close> checks the size and inserts in the same
  step, the end of an execution only deletes (the size does not grow), a shutdown
  request leaves the registry alone. The bound holds when a store is constructed with a capacity that is not
  negative, hence in every state the process reaches from there, and the capacity itself
  never changes.
\<close>

theorem registry_never_exceeds_capacity:
  "(jobsSize (store p) \<le> maxConcurrent (store p)
      \<longrightarrow> jobsSize (store (step p a)) \<le> maxConcurrent (store (step p a)))
   \<and> jobsSize (store (settle i p)) \<le> jobsSize (store p)
   \<and> jobs (store (step p RequestShutdown)) = jobs (store p)
   \<and> (0 \<le> n \<longrightarrow> getActiveCount (store (run acts (newProcess n))) \<le> n
                 \<and> getMaxConcurrent (store (run acts (newProcess n))) = n)"
proof -
  have only_removes: "jobsSize (store (settle i p)) \<le> jobsSize (store p)
       \<and> jobs (store (step p RequestShutdown)) = jobs (store p)"
    using settle_size [of i p] by (simp add: requestShutdown_def)
  have "jobsSize (store (run acts (newProcess n))) \<le> n" if "0 \<le> n"
    using run_size [of "newProcess n" acts] that
    by (simp add: run_maxConcurrent) (simp add: newProcess_def newJobStore_def jobsSize_def)
  moreover have "maxConcurrent (store (run acts (newProcess n))) = n"
    by (simp add: run_maxConcurrent) (simp add: newProcess_def newJobStore_def)
  ultimately show ?thesis
    using step_size [of p a] only_removes by (simp add: getActiveCount_def getMaxConcurrent_def)
qed

theorem registry_never_exceeds_capacity_witness:
  "jobsSize (store (newProcess 1 :: unit process)) \<le> maxConcurrent (store (newProcess 1 :: unit process))
   \<and> jobsSize (store (step (newProcess 1 :: unit process) (AddJob ''a'' (\<lambda>k. Fulfilled) None 0 100)))
       \<le> maxConcurrent (store (step (newProcess 1 :: unit process)
                                    (AddJob ''a'' (\<lambda>k. Fulfilled) None 0 100)))
   \<and> (0 :: int) \<le> 1
   \<and> getActiveCount (store (run [AddJob ''a'' (\<lambda>k. Fulfilled) None 0 100,
                                   AddJob ''b'' (\<lambda>k. Fulfilled) None 0 200,
                                   Settle 0,
                                   AddJob ''c'' (\<lambda>k. Fulfilled) None 0 300]
                                  (newProcess 1 :: unit process))) \<le> 1"
proof -
  have h1: "jobsSize (store (newProcess 1 :: unit process))
              \<le> maxConcurrent (store (newProcess 1 :: unit process))"
    by (simp add: newProcess_def newJobStore_def jobsSize_def)
  have h2: "(0 :: int) \<le> 1" by simp
  note T = registry_never_exceeds_capacity [where p = "newProcess 1 :: unit process"
      and a = "AddJob ''a'' (\<lambda>k. Fulfilled) None 0 100" and n = 1
      and acts = "[AddJob ''a'' (\<lambda>k. Fulfilled) (None :: unit option) 0 100,
                   AddJob ''b'' (\<lambda>k. Fulfilled) None 0 200,
                   Settle 0,
                   AddJob ''c'' (\<lambda>k. Fulfilled) None 0 300]"]
  show ?thesis using h1 h2 T by (simp only: simp_thms)
qed

text \<open>
  C3. \<^verbatim>\<open>requestShutdown\<close> sets the flag and no step clears it: it is set in every
  state reached after a shutdown request, whatever happens in between, and every
  \<^verbatim>\<open>addJob\<close> made then is refused and changes nothing, also on a process that has no
  job at all.
\<close>

theorem shutdown_is_final:
  "shutdownRequested (store (step p RequestShutdown))
   \<and> (shutdownRequested (store p) \<longrightarrow> shutdownRequested (store (step p a)))
   \<and> isShutdownRequested (store (run acts (step p RequestShutdown)))
   \<and> addJob jid task meta rc now (run acts (step p RequestShutdown))
       = (False, run acts (step p RequestShutdown))
   \<and> addJob jid task meta rc now (step (newProcess n) RequestShutdown)
       = (False, step (newProcess n) RequestShutdown)"
proof -
  have s: "shutdownRequested (store (step q RequestShutdown))" for q :: "'x process"
    by (simp add: requestShutdown_def)
  have r: "shutdownRequested (store (run acts (step p RequestShutdown)))"
    using run_shutdown [OF s] .
  have a1: "addJob jid task meta rc now (run acts (step p RequestShutdown))
       = (False, run acts (step p RequestShutdown))"
    using r by (rule addJob_rejects [OF disjI2])
  have a2: "addJob jid task meta rc now (step (newProcess n) RequestShutdown)
       = (False, step (newProcess n) RequestShutdown)"
    using s by (rule addJob_rejects [OF disjI2])
  have m: "shutdownRequested (store p) \<longrightarrow> shutdownRequested (store (step p a))"
    using step_flags [of p a] by blast
  show ?thesis
    unfolding isShutdownRequested_def using s [of p] m r a1 a2 by blast
qed


theorem shutdown_is_final_witness:
  "shutdownRequested (store (step (newProcess 3 :: unit process) RequestShutdown))
   \<and> shutdownRequested (store (step (step (newProcess 3 :: unit process) RequestShutdown) (Settle 0)))
   \<and> addJob ''a'' (\<lambda>k. Fulfilled) None 0 100 (step (newProcess 3 :: unit process) RequestShutdown)
       = (False, step (newProcess 3 :: unit process) RequestShutdown)"
proof -
  have h: "shutdownRequested (store (step (newProcess 3 :: unit process) RequestShutdown))"
    by (simp add: requestShutdown_def)
  note T = shutdown_is_final [where p = "step (newProcess 3 :: unit process) RequestShutdown"
      and a = "Settle 0" and acts = "[] :: unit action list" and n = 3
      and jid = "''a''" and task = "\<lambda>k. Fulfilled" and meta = None and rc = 0 and now = 100]
  show ?thesis using h T by (simp only: simp_thms)
qed

lemma addJob_fresh:
  assumes "jobsSize (store p) < maxConcurrent (store p)" and "\<not> shutdownRequested (store p)"
    and "jid \<notin> fst ` set (jobs (store p))"
  shows "fst (addJob jid task meta rc now p)
       \<and> jobs (store (snd (addJob jid task meta rc now p)))
           = jobs (store p) @ [(jid, \<lparr>jobId = jid, startedAt = now, metadata = meta\<rparr>)]
       \<and> getActiveCount (store (snd (addJob jid task meta rc now p))) = getActiveCount (store p) + 1
       \<and> running (snd (addJob jid task meta rc now p)) = running p @ [(jid, task, rc)]"
  using assms by (simp add: addJob_def update_fresh getActiveCount_def jobsSize_def)

lemma addJobs_all_accepted:
  assumes "distinct (map fst reqs)"
    and "fst ` set reqs \<inter> fst ` set (jobs (store p)) = {}"
    and "int (length (jobs (store p)) + length reqs) \<le> maxConcurrent (store p)"
    and "\<not> shutdownRequested (store p)"
  shows "fst (addJobs reqs p) = replicate (length reqs) True
       \<and> map fst (jobs (store (snd (addJobs reqs p)))) = map fst (jobs (store p)) @ map fst reqs
       \<and> maxConcurrent (store (snd (addJobs reqs p))) = maxConcurrent (store p)"
  using assms
proof (induction reqs arbitrary: p)
  case Nil
  then show ?case by simp
next
  case (Cons req reqs)
  obtain jid task meta rc now where req: "req = (jid, task, meta, rc, now)"
    by (cases req) auto
  obtain p' where acc: "addJob jid task meta rc now p = (True, p')"
    using addJob_accepts [of p jid task meta rc now] Cons.prems(3,4) by (simp add: jobsSize_def)
  have fresh: "jid \<notin> fst ` set (jobs (store p))"
    using Cons.prems(2) req by auto
  have small: "jobsSize (store p) < maxConcurrent (store p)"
    using Cons.prems(3) by (simp add: jobsSize_def)
  have A: "jobs (store p') = jobs (store p) @ [(jid, \<lparr>jobId = jid, startedAt = now, metadata = meta\<rparr>)]"
    using addJob_fresh [OF small Cons.prems(4) fresh, of task meta rc now] by (simp add: acc)
  have F: "maxConcurrent (store p') = maxConcurrent (store p)"
          "shutdownRequested (store p') = shutdownRequested (store p)"
    using addJob_flags [of jid task meta rc now p] by (simp_all add: acc)
  have d: "distinct (map fst reqs)" and n: "jid \<notin> fst ` set reqs"
    using Cons.prems(1) req by auto
  have disj: "fst ` set reqs \<inter> fst ` set (jobs (store p')) = {}"
    using Cons.prems(2) A n by auto
  have len: "int (length (jobs (store p')) + length reqs) \<le> maxConcurrent (store p')"
    using Cons.prems(3) A F by simp
  have nsh: "\<not> shutdownRequested (store p')"
    using Cons.prems(4) F by simp
  note IH = Cons.IH [OF d disj len nsh]
  have unf: "addJobs (req # reqs) p = (True # fst (addJobs reqs p'), snd (addJobs reqs p'))"
    by (simp add: req acc split: prod.splits)
  show ?case
    unfolding unf using IH A F by (simp add: req)
qed

text \<open>
  C1. With \<^verbatim>\<open>maxConcurrent = N\<close> and no shutdown requested, an \<^verbatim>\<open>addJob\<close> with an id
  that is not registered, made while fewer than \<open>N\<close> jobs are registered, is accepted
  and appends the job to the registry. So \<open>N\<close> requests with distinct ids made on a new
  store are all accepted and leave \<^verbatim>\<open>getActiveCount() = N\<close>; one more request is
  refused and leaves the store, the running executions and the log as they were.
\<close>

theorem admission_up_to_capacity:
  fixes N :: nat
  shows "(maxConcurrent (store p) = int N \<and> \<not> shutdownRequested (store p)
            \<and> length (jobs (store p)) < N \<and> jid \<notin> fst ` set (jobs (store p))
          \<longrightarrow> fst (addJob jid task meta rc now p)
              \<and> jobs (store (snd (addJob jid task meta rc now p)))
                  = jobs (store p) @ [(jid, \<lparr>jobId = jid, startedAt = now, metadata = meta\<rparr>)]
              \<and> getActiveCount (store (snd (addJob jid task meta rc now p)))
                  = getActiveCount (store p) + 1)
       \<and> (distinct (map fst reqs) \<and> length reqs = N
          \<longrightarrow> fst (addJobs reqs (newProcess (int N))) = replicate N True
              \<and> getActiveCount (store (snd (addJobs reqs (newProcess (int N))))) = int N
              \<and> map fst (jobs (store (snd (addJobs reqs (newProcess (int N)))))) = map fst reqs
              \<and> addJob jid' task' meta' rc' now' (snd (addJobs reqs (newProcess (int N))))
                  = (False, snd (addJobs reqs (newProcess (int N)))))"
proof -
  have one: "fst (addJob jid task meta rc now p)
              \<and> jobs (store (snd (addJob jid task meta rc now p)))
                  = jobs (store p) @ [(jid, \<lparr>jobId = jid, startedAt = now, metadata = meta\<rparr>)]
              \<and> getActiveCount (store (snd (addJob jid task meta rc now p)))
                  = getActiveCount (store p) + 1"
    if "maxConcurrent (store p) = int N \<and> \<not> shutdownRequested (store p)
            \<and> length (jobs (store p)) < N \<and> jid \<notin> fst ` set (jobs (store p))"
  proof -
    have "jobsSize (store p) < maxConcurrent (store p)"
      using that by (simp add: jobsSize_def)
    then show ?thesis using addJob_fresh [of p jid task meta rc now] that by blast
  qed
  have batch: "fst (addJobs reqs (newProcess (int N))) = replicate N True
              \<and> getActiveCount (store (snd (addJobs reqs (newProcess (int N))))) = int N
              \<and> map fst (jobs (store (snd (addJobs reqs (newProcess (int N)))))) = map fst reqs
              \<and> addJob jid' task' meta' rc' now' (snd (addJobs reqs (newProcess (int N))))
                  = (False, snd (addJobs reqs (newProcess (int N))))"
    if "distinct (map fst reqs) \<and> length reqs = N"
  proof -
    let ?q = "snd (addJobs reqs (newProcess (int N)))"
    have B: "fst (addJobs reqs (newProcess (int N))) = replicate (length reqs) True
       \<and> map fst (jobs (store ?q)) = map fst (jobs (store (newProcess (int N)))) @ map fst reqs
       \<and> maxConcurrent (store ?q) = maxConcurrent (store (newProcess (int N)))"
      using addJobs_all_accepted [of reqs "newProcess (int N)"] that
      by (simp add: newProcess_def newJobStore_def)
    have keys: "map fst (jobs (store ?q)) = map fst reqs"
      using B by (simp add: newProcess_def newJobStore_def)
    have "length (map fst (jobs (store ?q))) = N"
      using keys that by simp
    then have cnt: "jobsSize (store ?q) = int N"
      by (simp add: jobsSize_def)
    have mx: "maxConcurrent (store ?q) = int N"
      using B by (simp add: newProcess_def newJobStore_def)
    have rej: "addJob jid' task' meta' rc' now' ?q = (False, ?q)"
      using cnt mx by (simp add: addJob_rejects)
    have oks: "fst (addJobs reqs (newProcess (int N))) = replicate N True"
      using B that by blast
    have act: "getActiveCount (store ?q) = int N"
      using cnt by (simp add: getActiveCount_def)
    show ?thesis using oks act keys rej by blast
  qed
  show ?thesis using one batch by blast
qed

theorem admission_up_to_capacity_witness:
  "(maxConcurrent (store (newProcess (int 2) :: unit process)) = int 2
      \<and> \<not> shutdownRequested (store (newProcess (int 2) :: unit process))
      \<and> length (jobs (store (newProcess (int 2) :: unit process))) < 2
      \<and> ''a'' \<notin> fst ` set (jobs (store (newProcess (int 2) :: unit process))))
   \<and> (distinct (map fst ([(''a'', \<lambda>k. Fulfilled, None, 0, 100), (''b'', \<lambda>k. Pending, None, 0, 200)]
                         :: (string \<times> task \<times> unit option \<times> int \<times> int) list))
      \<and> length ([(''a'', \<lambda>k. Fulfilled, None, 0, 100), (''b'', \<lambda>k. Pending, None, 0, 200)]
                         :: (string \<times> task \<times> unit option \<times> int \<times> int) list) = 2)
   \<and> fst (addJob ''a'' (\<lambda>k. Fulfilled) None 0 100 (newProcess (int 2) :: unit process))
   \<and> getActiveCount (store (snd (addJob ''a'' (\<lambda>k. Fulfilled) None 0 100
         (newProcess (int 2) :: unit process))))
       = getActiveCount (store (newProcess (int 2) :: unit process)) + 1
   \<and> fst (addJobs [(''a'', \<lambda>k. Fulfilled, None, 0, 100), (''b'', \<lambda>k. Pending, None, 0, 200)]
            (newProcess (int 2) :: unit process)) = replicate 2 True
   \<and> getActiveCount (store (snd (addJobs
         [(''a'', \<lambda>k. Fulfilled, None, 0, 100), (''b'', \<lambda>k. Pending, None, 0, 200)]
         (newProcess (int 2) :: unit process)))) = int 2
   \<and> addJob ''c'' (\<lambda>k. Fulfilled) None 0 300 (snd (addJobs
         [(''a'', \<lambda>k. Fulfilled, None, 0, 100), (''b'', \<lambda>k. Pending, None, 0, 200)]
         (newProcess (int 2) :: unit process)))
       = (False, snd (addJobs
         [(''a'', \<lambda>k. Fulfilled, None, 0, 100), (''b'', \<lambda>k. Pending, None, 0, 200)]
         (newProcess (int 2) :: unit process)))"
proof -
  have h1: "maxConcurrent (store (newProcess (int 2) :: unit process)) = int 2
      \<and> \<not> shutdownRequested (store (newProcess (int 2) :: unit process))
      \<and> length (jobs (store (newProcess (int 2) :: unit process))) < 2
      \<and> ''a'' \<notin> fst ` set (jobs (store (newProcess (int 2) :: unit process)))"
    by (simp add: newProcess_def newJobStore_def)
  have h2: "distinct (map fst ([(''a'', \<lambda>k. Fulfilled, None, 0, 100), (''b'', \<lambda>k. Pending, None, 0, 200)]
                         :: (string \<times> task \<times> unit option \<times> int \<times> int) list))
      \<and> length ([(''a'', \<lambda>k. Fulfilled, None, 0, 100), (''b'', \<lambda>k. Pending, None, 0, 200)]
                         :: (string \<times> task \<times> unit option \<times> int \<times> int) list) = 2"
    by simp
  note T = admission_up_to_capacity [where N = 2 and p = "newProcess (int 2) :: unit process"
      and jid = "''a''" and task = "\<lambda>k. Fulfilled" and meta = None and rc = 0 and now = 100
      and reqs = "[(''a'', \<lambda>k. Fulfilled, None :: unit option, 0, 100),
                   (''b'', \<lambda>k. Pending, None, 0, 200)]"
      and jid' = "''c''" and task' = "\<lambda>k. Fulfilled" and meta' = None and rc' = 0 and now' = 300]
  show ?thesis using h1 h2 T by (simp only: simp_thms)
qed

lemma set_dropAt:
  assumes "i < length xs"
  shows "set xs - {xs ! i} \<subseteq> set (dropAt i xs)"
proof
  fix x assume x: "x \<in> set xs - {xs ! i}"
  then obtain j where j: "j < length xs" "xs ! j = x" "j \<noteq> i"
    by (auto simp add: in_set_conv_nth)
  show "x \<in> set (dropAt i xs)"
  proof (cases "j < i")
    case True
    then have "take i xs ! j = x" using j by simp
    moreover have "j < length (take i xs)" using True assms by simp
    ultimately have "x \<in> set (take i xs)" using nth_mem by blast
    then show ?thesis by (simp add: dropAt_def)
  next
    case False
    then have gt: "Suc i \<le> j" using j(3) by simp
    then have "drop (Suc i) xs ! (j - Suc i) = x" using j by simp
    moreover have "j - Suc i < length (drop (Suc i) xs)" using gt j(1) by simp
    ultimately have "x \<in> set (drop (Suc i) xs)" using nth_mem by blast
    then show ?thesis by (simp add: dropAt_def)
  qed
qed

lemma keys_update: "fst ` set (AList.update k v al) = insert k (fst ` set al)"
  by (induction al) auto

lemma keys_delete_subset: "fst ` set (AList.delete k al) = fst ` set al - {k}"
  by (induction al) auto

lemma addJob_registeredRunning:
  "registeredRunning p \<Longrightarrow> registeredRunning (snd (addJob jid task meta rc now p))"
  by (auto simp add: addJob_def registeredRunning_def keys_update)

lemma settle_registeredRunning:
  assumes "registeredRunning p"
  shows "registeredRunning (settle i p)"
proof -
  consider "settle i p = p"
    | "i < length (running p)"
      "store (settle i p) = (store p)\<lparr>jobs := AList.delete (fst (running p ! i)) (jobs (store p))\<rparr>"
      "running (settle i p) = dropAt i (running p)"
    using settle_cases [of i p] by blast
  then show ?thesis
  proof cases
    case 1
    then show ?thesis using assms by simp
  next
    case 2
    have "x \<in> fst ` set (dropAt i (running p))"
      if x: "x \<in> fst ` set (jobs (store p))" "x \<noteq> fst (running p ! i)" for x
    proof -
      from x(1) assms obtain e where e: "e \<in> set (running p)" "fst e = x"
        by (auto simp add: registeredRunning_def)
      then have "e \<noteq> running p ! i" using x(2) by auto
      then have "e \<in> set (dropAt i (running p))"
        using e(1) set_dropAt [OF 2(1)] by auto
      then show ?thesis using e(2) by force
    qed
    then show ?thesis
      by (auto simp add: registeredRunning_def 2(2,3) keys_delete_subset)
  qed
qed

lemma step_registeredRunning: "registeredRunning p \<Longrightarrow> registeredRunning (step p a)"
  by (cases a)
     (simp_all add: addJob_registeredRunning settle_registeredRunning,
      simp add: registeredRunning_def requestShutdown_def)

lemma run_registeredRunning: "registeredRunning p \<Longrightarrow> registeredRunning (run acts p)"
  by (induction acts rule: rev_induct) (simp_all add: run_Nil run_snoc step_registeredRunning)

lemma newProcess_registeredRunning: "registeredRunning (newProcess n)"
  by (simp add: registeredRunning_def newProcess_def newJobStore_def)

lemma exec_settles:
  "(\<And>j. task j \<noteq> Pending) \<Longrightarrow> fst (executeTaskWithRetry task k r) \<noteq> Pending"
proof (induction task k r rule: executeTaskWithRetry.induct)
  case (1 task k retryCount)
  show ?case
    using 1
    by (subst executeTaskWithRetry_unfold)
       (auto split: outcome.splits prod.splits)
qed

text \<open>
  C4. Whatever the detached execution ends with, fulfilment or rejection with any
  error, the \<^verbatim>\<open>finally\<close> callback deletes the job's entry. An execution whose task
  body settles at every call does end (after a success, a failure that is not retryable,
  exhausted retries, or the third failure with an error that is not a \<^verbatim>\<open>KnownError\<close>),
  and when it ends the id is no longer registered and the execution is no longer
  running. In every state the process reaches, each registered id belongs to an
  execution that is still running.
\<close>

theorem job_removed_on_every_outcome:
  "(res \<noteq> Pending \<longrightarrow> jid \<notin> fst ` set (jobs (store (onSettled jid res p))))
   \<and> (i < length (running p) \<and> running p ! i = (jid, task, rc) \<and> (\<forall>k. task k \<noteq> Pending)
      \<longrightarrow> jid \<notin> fst ` set (jobs (store (settle i p)))
          \<and> running (settle i p) = dropAt i (running p))
   \<and> fst ` set (jobs (store (run acts (newProcess n)))) \<subseteq> fst ` set (running (run acts (newProcess n)))"
proof -
  have a: "jid \<notin> fst ` set (jobs (store (onSettled jid res p)))" if "res \<noteq> Pending"
    using that by (simp add: onSettled_store keys_delete)
  have b: "jid \<notin> fst ` set (jobs (store (settle i p))) \<and> running (settle i p) = dropAt i (running p)"
    if "i < length (running p) \<and> running p ! i = (jid, task, rc) \<and> (\<forall>k. task k \<noteq> Pending)"
  proof -
    have "fst (executeTaskWithRetry task 0 rc) \<noteq> Pending"
      using that by (intro exec_settles) simp
    then show ?thesis
      using that
      by (auto simp add: settle_def onSettled_store onSettled_running keys_delete
          split: prod.splits)
  qed
  have c: "fst ` set (jobs (store (run acts (newProcess n)))) \<subseteq> fst ` set (running (run acts (newProcess n)))"
    using run_registeredRunning [OF newProcess_registeredRunning, of acts n]
    by (simp add: registeredRunning_def)
  show ?thesis using a b c by blast
qed

theorem job_removed_on_every_outcome_witness:
  "Rejected OtherError \<noteq> Pending
   \<and> (0 < length (running (snd (addJob ''a'' (\<lambda>k. Rejected OtherError) None 0 100
                                  (newProcess 1 :: unit process))))
      \<and> running (snd (addJob ''a'' (\<lambda>k. Rejected OtherError) None 0 100
                                  (newProcess 1 :: unit process))) ! 0
          = (''a'', \<lambda>k. Rejected OtherError, 0)
      \<and> (\<forall>k :: nat. Rejected OtherError \<noteq> Pending))
   \<and> ''a'' \<in> fst ` set (jobs (store (snd (addJob ''a'' (\<lambda>k. Rejected OtherError) None 0 100
                                  (newProcess 1 :: unit process)))))
   \<and> ''a'' \<notin> fst ` set (jobs (store (onSettled ''a'' (Rejected OtherError)
        (snd (addJob ''a'' (\<lambda>k. Rejected OtherError) None 0 100 (newProcess 1 :: unit process))))))
   \<and> ''a'' \<notin> fst ` set (jobs (store (settle 0
        (snd (addJob ''a'' (\<lambda>k. Rejected OtherError) None 0 100 (newProcess 1 :: unit process))))))"
proof -
  have h1: "Rejected OtherError \<noteq> Pending" by simp
  have h2: "0 < length (running (snd (addJob ''a'' (\<lambda>k. Rejected OtherError) None 0 100
                                  (newProcess 1 :: unit process))))
      \<and> running (snd (addJob ''a'' (\<lambda>k. Rejected OtherError) None 0 100
                                  (newProcess 1 :: unit process))) ! 0
          = (''a'', \<lambda>k. Rejected OtherError, 0)
      \<and> (\<forall>k :: nat. Rejected OtherError \<noteq> Pending)"
    by (simp add: newProcess_def newJobStore_def jobsSize_def addJob_def)
  have h3: "''a'' \<in> fst ` set (jobs (store (snd (addJob ''a'' (\<lambda>k. Rejected OtherError) None 0 100
                                  (newProcess 1 :: unit process)))))"
    by (simp add: newProcess_def newJobStore_def jobsSize_def addJob_def)
  note T = job_removed_on_every_outcome [where res = "Rejected OtherError" and jid = "''a''"
      and p = "snd (addJob ''a'' (\<lambda>k. Rejected OtherError) None 0 100 (newProcess 1 :: unit process))"
      and i = 0 and task = "\<lambda>k. Rejected OtherError" and rc = 0 and acts = "[] :: unit action list" and n = 1]
  show ?thesis using h1 h2 h3 T by (simp only: simp_thms)
qed

section \<open>Properties of draining\<close>

lemma checkCompletion_finds:
  "jobsSize (obs (length ts + n)) = 0 \<Longrightarrow> (\<And>j. j < n \<Longrightarrow> jobsSize (obs (length ts + j)) \<noteq> 0)
   \<Longrightarrow> checkCompletion obs ts = Some (ts @ replicate n 1000)"
proof (induction n arbitrary: ts)
  case 0
  then show ?case by (subst checkCompletion.simps) simp
next
  case (Suc n)
  have nz: "jobsSize (obs (length ts)) \<noteq> 0"
    using Suc.prems(2) [of 0] by simp
  have "checkCompletion obs (ts @ [1000]) = Some ((ts @ [1000]) @ replicate n 1000)"
  proof (rule Suc.IH)
    show "jobsSize (obs (length (ts @ [1000]) + n)) = 0"
      using Suc.prems(1) by simp
    show "jobsSize (obs (length (ts @ [1000]) + j)) \<noteq> 0" if "j < n" for j
      using Suc.prems(2) [of "Suc j"] that by simp
  qed
  then show ?case
    using nz by (subst checkCompletion.simps) simp
qed

lemma checkCompletion_sound:
  assumes "checkCompletion obs ts = Some r"
  shows "\<exists>n. r = ts @ replicate n 1000 \<and> jobsSize (obs (length ts + n)) = 0
       \<and> (\<forall>j<n. jobsSize (obs (length ts + j)) \<noteq> 0)"
proof (rule checkCompletion.raw_induct
    [where P = "\<lambda>obs ts r. \<exists>n. r = ts @ replicate n 1000 \<and> jobsSize (obs (length ts + n)) = 0
       \<and> (\<forall>j<n. jobsSize (obs (length ts + j)) \<noteq> 0)", OF _ assms])
  fix f and obs :: "nat \<Rightarrow> 'a JobStore" and ts r :: "int list"
  assume IH: "\<And>obs ts r. f obs ts = Some r \<Longrightarrow>
     \<exists>n. r = ts @ replicate n 1000 \<and> jobsSize (obs (length ts + n)) = 0
       \<and> (\<forall>j<n. jobsSize (obs (length ts + j)) \<noteq> 0)"
    and eq: "(if jobsSize (obs (length ts)) = 0 then Some ts else f obs (ts @ [1000])) = Some r"
  show "\<exists>n. r = ts @ replicate n 1000 \<and> jobsSize (obs (length ts + n)) = 0
       \<and> (\<forall>j<n. jobsSize (obs (length ts + j)) \<noteq> 0)"
  proof (cases "jobsSize (obs (length ts)) = 0")
    case True
    then have "r = ts" using eq by simp
    then show ?thesis using True by (intro exI [of _ 0]) simp
  next
    case False
    then have "f obs (ts @ [1000]) = Some r" using eq by simp
    from IH [OF this] obtain n where n: "r = (ts @ [1000]) @ replicate n 1000"
      "jobsSize (obs (length (ts @ [1000]) + n)) = 0"
      "\<forall>j<n. jobsSize (obs (length (ts @ [1000]) + j)) \<noteq> 0" by blast
    have "\<forall>j<Suc n. jobsSize (obs (length ts + j)) \<noteq> 0"
    proof (intro allI impI)
      fix j assume "j < Suc n"
      show "jobsSize (obs (length ts + j)) \<noteq> 0"
      proof (cases j)
        case 0
        then show ?thesis using False by simp
      next
        case (Suc i)
        then show ?thesis using n(3) \<open>j < Suc n\<close> by simp
      qed
    qed
    then show ?thesis using n(1,2) by (intro exI [of _ "Suc n"]) simp
  qed
qed

lemma first_empty:
  fixes obs :: "nat \<Rightarrow> 'm JobStore"
  assumes "jobsSize (obs m) = 0"
  shows "\<exists>n\<le>m. jobsSize (obs n) = 0 \<and> (\<forall>j<n. jobsSize (obs j) \<noteq> 0)"
proof -
  let ?n = "LEAST n. jobsSize (obs n) = 0"
  have "jobsSize (obs ?n) = 0"
    using assms LeastI [of "\<lambda>n. jobsSize (obs n) = 0" m] by simp
  moreover have "?n \<le> m"
    using assms Least_le [of "\<lambda>n. jobsSize (obs n) = 0" m] by simp
  moreover have "\<forall>j<?n. jobsSize (obs j) \<noteq> 0"
    using not_less_Least [of _ "\<lambda>n. jobsSize (obs n) = 0"] by blast
  ultimately show ?thesis by blast
qed

text \<open>
  C10. \<^verbatim>\<open>waitForCompletion\<close> resolves without setting a timer when the registry is
  empty at the call. Otherwise every timer it awaits is a 1000 ms one, the registry is
  empty at the timer where it resolves and was not empty at the call nor at any earlier
  timer; it resolves (at the first such timer) if the registry is ever found empty, and
  never resolves if it is not.
\<close>

theorem drain_resolves_only_when_empty:
  "(jobsSize (obs 0) = 0 \<longrightarrow> waitForCompletion obs = Some [])
   \<and> (waitForCompletion obs = Some ts
        \<longrightarrow> ts = replicate (length ts) 1000 \<and> jobsSize (obs (length ts)) = 0
            \<and> (\<forall>j<length ts. jobsSize (obs j) \<noteq> 0))
   \<and> (jobsSize (obs m) = 0 \<longrightarrow> (\<exists>ts. waitForCompletion obs = Some ts \<and> length ts \<le> m))
   \<and> ((\<forall>j. jobsSize (obs j) \<noteq> 0) \<longrightarrow> waitForCompletion obs = None)"
proof -
  have a: "waitForCompletion obs = Some []" if "jobsSize (obs 0) = 0"
    using that by (simp add: waitForCompletion_def)
  have b: "ts = replicate (length ts) 1000 \<and> jobsSize (obs (length ts)) = 0
            \<and> (\<forall>j<length ts. jobsSize (obs j) \<noteq> 0)" if w: "waitForCompletion obs = Some ts" for ts
  proof (cases "jobsSize (obs 0) = 0")
    case True
    then show ?thesis using w by (auto simp add: waitForCompletion_def)
  next
    case False
    then have "checkCompletion obs [] = Some ts" using w by (simp add: waitForCompletion_def)
    from checkCompletion_sound [OF this] show ?thesis by auto
  qed
  have c: "\<exists>ts. waitForCompletion obs = Some ts \<and> length ts \<le> m" if "jobsSize (obs m) = 0"
  proof -
    from first_empty [of obs m] that obtain n where n: "n \<le> m" "jobsSize (obs n) = 0"
      "\<forall>j<n. jobsSize (obs j) \<noteq> 0" by blast
    have cc: "checkCompletion obs [] = Some ([] @ replicate n 1000)"
      using n by (intro checkCompletion_finds) simp_all
    show ?thesis
    proof (cases "jobsSize (obs 0) = 0")
      case True
      then show ?thesis by (simp add: waitForCompletion_def)
    next
      case False
      then show ?thesis using cc n(1) by (simp add: waitForCompletion_def)
    qed
  qed
  have d: "waitForCompletion obs = None" if "\<forall>j. jobsSize (obs j) \<noteq> 0"
  proof (rule ccontr)
    assume "waitForCompletion obs \<noteq> None"
    then obtain ts where "waitForCompletion obs = Some ts" by auto
    from b [OF this] that show False by blast
  qed
  show ?thesis using a b [of ts] c d by blast
qed

theorem drain_resolves_only_when_empty_witness:
  "waitForCompletion (\<lambda>k. newJobStore 3 :: unit JobStore) = Some []
   \<and> waitForCompletion (\<lambda>k. if k < 2
         then \<lparr>jobs = [(''a'', \<lparr>jobId = ''a'', startedAt = 100, metadata = None\<rparr>)],
               maxConcurrent = 3, shutdownRequested = True\<rparr>
         else (newJobStore 3 :: unit JobStore)) = Some [1000, 1000]
   \<and> waitForCompletion (\<lambda>k.
            \<lparr>jobs = [(''a'', \<lparr>jobId = ''a'', startedAt = 100, metadata = None :: unit option\<rparr>)],
               maxConcurrent = 3, shutdownRequested = True\<rparr>) = None"
proof -
  let ?busy = "\<lparr>jobs = [(''a'', \<lparr>jobId = ''a'', startedAt = 100, metadata = None :: unit option\<rparr>)],
               maxConcurrent = 3, shutdownRequested = True\<rparr>"
  let ?obs = "\<lambda>k :: nat. if k < 2 then ?busy else (newJobStore 3 :: unit JobStore)"
  have e: "jobsSize (newJobStore 3 :: unit JobStore) = 0" and b: "jobsSize ?busy \<noteq> 0"
    by (simp_all add: jobsSize_def newJobStore_def)
  have w1: "waitForCompletion (\<lambda>k. newJobStore 3 :: unit JobStore) = Some []"
    using drain_resolves_only_when_empty [where obs = "\<lambda>k. newJobStore 3 :: unit JobStore"] e
    by blast
  have e2: "jobsSize (?obs 2) = 0" using e by simp
  have "\<exists>ts. waitForCompletion ?obs = Some ts \<and> length ts \<le> 2"
    using drain_resolves_only_when_empty [where obs = ?obs and m = 2] e2 by blast
  then obtain ts where ts: "waitForCompletion ?obs = Some ts" "length ts \<le> 2" by blast
  have p: "ts = replicate (length ts) 1000 \<and> jobsSize (?obs (length ts)) = 0"
    using drain_resolves_only_when_empty [where obs = ?obs and ts = ts] ts(1) by blast
  have "length ts = 2"
  proof (rule ccontr)
    assume "length ts \<noteq> 2"
    then have "length ts < 2" using ts(2) by simp
    then have "jobsSize (?obs (length ts)) = jobsSize ?busy" by simp
    then show False using p b by simp
  qed
  then have "ts = [1000, 1000]"
    using p by (simp add: numeral_2_eq_2)
  then have w2: "waitForCompletion ?obs = Some [1000, 1000]"
    using ts(1) by simp
  have b3: "\<forall>j :: nat. jobsSize ((\<lambda>k. ?busy) j) \<noteq> 0" using b by simp
  have w3: "waitForCompletion (\<lambda>k :: nat. ?busy) = None"
    using drain_resolves_only_when_empty [where obs = "\<lambda>k. ?busy"] b3 by blast
  show ?thesis using w1 w2 w3 by blast
qed

section \<open>Properties of the lobby wait\<close>

lemma timersMatch_init: "timersMatch waitAtLobbyPromise"
  by (simp add: timersMatch_def waitAtLobbyPromise_def)

lemma lobbyStep_timersMatch:
  "timersMatch s \<Longrightarrow> lobbyStep e s = Some s' \<Longrightarrow> timersMatch s'"
  by (cases e)
     (auto simp add: timersMatch_def resolveMe_def clearInterval_def clearTimeout_def
           split: if_splits checkResult.splits option.splits)

lemma lobbyRun_timersMatch:
  "timersMatch s \<Longrightarrow> lobbyRun evs s = Some s' \<Longrightarrow> timersMatch s'"
proof (induction evs arbitrary: s)
  case Nil
  then show ?case by simp
next
  case (Cons e evs)
  then show ?case
    by (auto split: option.splits dest: lobbyStep_timersMatch)
qed

lemma lobbyStep_after_resolution:
  assumes "timersMatch s" and "resolved s = Some v" and "lobbyStep e s = Some s'"
  shows "resolved s' = Some v \<and> checksStarted s' = checksStarted s \<and> e \<noteq> IntervalFires \<and> e \<noteq> TimeoutFires"
  using assms
  by (cases e)
     (auto simp add: timersMatch_def resolveMe_def clearInterval_def clearTimeout_def
           split: if_splits checkResult.splits)

lemma lobbyRun_after_resolution:
  assumes "timersMatch s" and "resolved s = Some v" and "lobbyRun evs s = Some s'"
  shows "resolved s' = Some v \<and> checksStarted s' = checksStarted s
       \<and> IntervalFires \<notin> set evs \<and> TimeoutFires \<notin> set evs"
  using assms
proof (induction evs arbitrary: s)
  case Nil
  then show ?case by simp
next
  case (Cons e evs)
  from Cons.prems(3) obtain s1 where s1: "lobbyStep e s = Some s1" "lobbyRun evs s1 = Some s'"
    by (auto split: option.splits)
  note A = lobbyStep_after_resolution [OF Cons.prems(1,2) s1(1)]
  have "timersMatch s1" using Cons.prems(1) s1(1) by (rule lobbyStep_timersMatch)
  from Cons.IH [OF this _ s1(2)] A show ?case by auto
qed

lemma lobbyStep_unresolved:
  assumes "timersMatch s" and "resolved s = None" and "lobbyStep e s = Some s'"
  shows "resolved s' = (if e = TimeoutFires then Some False
                        else if e = CheckCompletes Ready then Some True else None)"
  using assms
  by (cases e)
     (auto simp add: timersMatch_def resolveMe_def clearInterval_def clearTimeout_def
           split: if_splits checkResult.splits)

lemma lobbyRun_first_resolving:
  assumes "timersMatch s" and "resolved s = None" and "lobbyRun evs s = Some s'"
  shows "resolved s' = (case find resolving evs of
                          None \<Rightarrow> None
                        | Some e \<Rightarrow> Some (e = CheckCompletes Ready))"
  using assms
proof (induction evs arbitrary: s)
  case Nil
  then show ?case by simp
next
  case (Cons e evs)
  from Cons.prems(3) obtain s1 where s1: "lobbyStep e s = Some s1" "lobbyRun evs s1 = Some s'"
    by (auto split: option.splits)
  have m1: "timersMatch s1" using Cons.prems(1) s1(1) by (rule lobbyStep_timersMatch)
  note U = lobbyStep_unresolved [OF Cons.prems(1,2) s1(1)]
  show ?case
  proof (cases "resolving e")
    case True
    then have "resolved s1 = Some (e = CheckCompletes Ready)"
      using U by (auto simp add: resolving_def)
    from lobbyRun_after_resolution [OF m1 this s1(2)] True show ?thesis by simp
  next
    case False
    then have "resolved s1 = None" using U by (auto simp add: resolving_def)
    from Cons.IH [OF m1 this s1(2)] False show ?thesis by simp
  qed
qed

text \<open>
  C9. In every state the lobby wait can reach: the promise has the value decided by
  the first event that resolves it, \<open>true\<close> if that is a call of the check that ends
  ready and \<open>false\<close> if it is the timeout; while it is unresolved, a check ending ready
  resolves it \<open>true\<close> and the timeout resolves it \<open>false\<close>, each leaving both timers
  cleared; once it is resolved no timer is armed, so neither timer can fire, the value
  stays, and no further call of the check is started.
\<close>

theorem lobby_wait_resolves_once_and_clears_timers:
  assumes "lobbyRun evs waitAtLobbyPromise = Some s"
  shows "resolved s = (case find resolving evs of
                         None \<Rightarrow> None | Some e \<Rightarrow> Some (e = CheckCompletes Ready))
       \<and> (resolved s = None \<and> 0 < checksInFlight s
            \<longrightarrow> (\<exists>s'. lobbyStep (CheckCompletes Ready) s = Some s' \<and> resolved s' = Some True
                       \<and> \<not> waitInterval s' \<and> \<not> waitTimeout s'))
       \<and> (resolved s = None
            \<longrightarrow> (\<exists>s'. lobbyStep TimeoutFires s = Some s' \<and> resolved s' = Some False
                       \<and> \<not> waitInterval s' \<and> \<not> waitTimeout s'))
       \<and> (resolved s \<noteq> None
            \<longrightarrow> \<not> waitInterval s \<and> \<not> waitTimeout s
                \<and> lobbyStep IntervalFires s = None \<and> lobbyStep TimeoutFires s = None
                \<and> (\<forall>evs' s'. lobbyRun evs' s = Some s'
                      \<longrightarrow> resolved s' = resolved s \<and> checksStarted s' = checksStarted s
                          \<and> IntervalFires \<notin> set evs' \<and> TimeoutFires \<notin> set evs'))"
proof -
  have m: "timersMatch s"
    using timersMatch_init assms by (rule lobbyRun_timersMatch)
  have a: "resolved s = (case find resolving evs of
                         None \<Rightarrow> None | Some e \<Rightarrow> Some (e = CheckCompletes Ready))"
    using timersMatch_init _ assms by (rule lobbyRun_first_resolving) (simp add: waitAtLobbyPromise_def)
  have b: "\<exists>s'. lobbyStep (CheckCompletes Ready) s = Some s' \<and> resolved s' = Some True
                       \<and> \<not> waitInterval s' \<and> \<not> waitTimeout s'"
    if "resolved s = None \<and> 0 < checksInFlight s"
    using that by (simp add: resolveMe_def clearInterval_def clearTimeout_def)
  have c: "\<exists>s'. lobbyStep TimeoutFires s = Some s' \<and> resolved s' = Some False
                       \<and> \<not> waitInterval s' \<and> \<not> waitTimeout s'"
    if "resolved s = None"
    using that m by (simp add: timersMatch_def resolveMe_def clearInterval_def)
  have d: "\<not> waitInterval s \<and> \<not> waitTimeout s
                \<and> lobbyStep IntervalFires s = None \<and> lobbyStep TimeoutFires s = None
                \<and> (\<forall>evs' s'. lobbyRun evs' s = Some s'
                      \<longrightarrow> resolved s' = resolved s \<and> checksStarted s' = checksStarted s
                          \<and> IntervalFires \<notin> set evs' \<and> TimeoutFires \<notin> set evs')"
    if r: "resolved s \<noteq> None"
  proof -
    from r obtain v where v: "resolved s = Some v" by auto
    have "\<not> waitInterval s \<and> \<not> waitTimeout s" using m r by (simp add: timersMatch_def)
    moreover have "resolved s' = resolved s \<and> checksStarted s' = checksStarted s
                          \<and> IntervalFires \<notin> set evs' \<and> TimeoutFires \<notin> set evs'"
      if "lobbyRun evs' s = Some s'" for evs' s'
      using lobbyRun_after_resolution [OF m v that] v by simp
    ultimately show ?thesis by simp
  qed
  show ?thesis using a b c d by blast
qed

theorem lobby_wait_resolves_once_and_clears_timers_witness:
  "lobbyRun [IntervalFires] waitAtLobbyPromise
     = Some \<lparr>waitTimeout = True, waitInterval = True, resolved = None,
             checksStarted = 1, checksInFlight = 1\<rparr>
   \<and> (\<exists>s'. lobbyStep (CheckCompletes Ready)
               \<lparr>waitTimeout = True, waitInterval = True, resolved = None,
                checksStarted = 1, checksInFlight = 1\<rparr> = Some s'
            \<and> resolved s' = Some True \<and> \<not> waitInterval s' \<and> \<not> waitTimeout s')
   \<and> (\<exists>s'. lobbyStep TimeoutFires
               \<lparr>waitTimeout = True, waitInterval = True, resolved = None,
                checksStarted = 1, checksInFlight = 1\<rparr> = Some s'
            \<and> resolved s' = Some False \<and> \<not> waitInterval s' \<and> \<not> waitTimeout s')
   \<and> lobbyRun [IntervalFires, CheckCompletes NotReady, IntervalFires, CheckCompletes Ready]
        waitAtLobbyPromise
     = Some \<lparr>waitTimeout = False, waitInterval = False, resolved = Some True,
             checksStarted = 2, checksInFlight = 0\<rparr>
   \<and> lobbyStep IntervalFires
        \<lparr>waitTimeout = False, waitInterval = False, resolved = Some True,
         checksStarted = 2, checksInFlight = 0\<rparr> = None
   \<and> lobbyStep TimeoutFires
        \<lparr>waitTimeout = False, waitInterval = False, resolved = Some True,
         checksStarted = 2, checksInFlight = 0\<rparr> = None"
proof -
  let ?s1 = "\<lparr>waitTimeout = True, waitInterval = True, resolved = None,
             checksStarted = 1, checksInFlight = 1\<rparr>"
  let ?s2 = "\<lparr>waitTimeout = False, waitInterval = False, resolved = Some True,
             checksStarted = 2, checksInFlight = 0\<rparr>"
  have r1: "lobbyRun [IntervalFires] waitAtLobbyPromise = Some ?s1"
    by (simp add: waitAtLobbyPromise_def)
  have r2: "lobbyRun [IntervalFires, CheckCompletes NotReady, IntervalFires, CheckCompletes Ready]
        waitAtLobbyPromise = Some ?s2"
    by (simp add: waitAtLobbyPromise_def resolveMe_def clearInterval_def clearTimeout_def)
  have h1: "resolved ?s1 = None \<and> 0 < checksInFlight ?s1" by simp
  have h1': "resolved ?s1 = None" by simp
  have h2: "resolved ?s2 \<noteq> None" by simp
  note T1 = lobby_wait_resolves_once_and_clears_timers [OF r1]
    and T2 = lobby_wait_resolves_once_and_clears_timers [OF r2]
  note c1 = T1 [THEN conjunct2, THEN conjunct1, THEN mp, OF h1]
    and c2 = T1 [THEN conjunct2, THEN conjunct2, THEN conjunct1, THEN mp, OF h1']
    and c3 = T2 [THEN conjunct2, THEN conjunct2, THEN conjunct2, THEN mp, OF h2]
  note c3a = c3 [THEN conjunct2, THEN conjunct2, THEN conjunct1]
    and c3b = c3 [THEN conjunct2, THEN conjunct2, THEN conjunct2, THEN conjunct1]
  show ?thesis by (intro conjI r1 r2 c1 c2 c3a c3b)
qed

section \<open>Properties of the notification wait\<close>

text \<open>
  The wait for device notifications follows the same discipline: once its promise is
  resolved, by the timeout or by a call that finds the buttons gone, no timer is armed
  and no further call of the callback is started.
\<close>

lemma notifyStep_timersMatch:
  "notifyTimersMatch s \<Longrightarrow> notifyStep e s = Some s' \<Longrightarrow> notifyTimersMatch s'"
  by (cases e) (auto simp add: notifyTimersMatch_def split: if_splits pollResult.splits)

lemma notifyRun_timersMatch:
  "notifyTimersMatch s \<Longrightarrow> notifyRun evs s = Some s' \<Longrightarrow> notifyTimersMatch s'"
proof (induction evs arbitrary: s)
  case Nil
  then show ?case by simp
next
  case (Cons e evs)
  then show ?case by (auto split: option.splits dest: notifyStep_timersMatch)
qed

lemma notifyStep_after_resolution:
  assumes "notifyTimersMatch s" and "notifyResolved s" and "notifyStep e s = Some s'"
  shows "notifyResolved s' \<and> pollsStarted s' = pollsStarted s"
  using assms
  by (cases e) (auto simp add: notifyTimersMatch_def split: if_splits pollResult.splits)

lemma notifyRun_after_resolution:
  assumes "notifyTimersMatch s" and "notifyResolved s" and "notifyRun evs s = Some s'"
  shows "notifyResolved s' \<and> pollsStarted s' = pollsStarted s"
  using assms
proof (induction evs arbitrary: s)
  case Nil
  then show ?case by simp
next
  case (Cons e evs)
  from Cons.prems(3) obtain s1 where s1: "notifyStep e s = Some s1" "notifyRun evs s1 = Some s'"
    by (auto split: option.splits)
  note A = notifyStep_after_resolution [OF Cons.prems(1,2) s1(1)]
  have "notifyTimersMatch s1" using Cons.prems(1) s1(1) by (rule notifyStep_timersMatch)
  from Cons.IH [OF this _ s1(2)] A show ?case by auto
qed

lemma notification_wait_clears_timers:
  assumes "notifyRun evs notifyPromise = Some s" and "notifyResolved s"
  shows "\<not> notifyTimeout s \<and> \<not> notifyInterval s
       \<and> notifyStep NotifyIntervalFires s = None \<and> notifyStep NotifyTimeoutFires s = None
       \<and> (\<forall>evs' s'. notifyRun evs' s = Some s' \<longrightarrow> pollsStarted s' = pollsStarted s)"
proof -
  have m: "notifyTimersMatch s"
    using _ assms(1) by (rule notifyRun_timersMatch) (simp add: notifyTimersMatch_def notifyPromise_def)
  then have "\<not> notifyTimeout s \<and> \<not> notifyInterval s"
    using assms(2) by (simp add: notifyTimersMatch_def)
  then show ?thesis
    using notifyRun_after_resolution [OF m assms(2)] by simp
qed

text \<open>
  Two overlapping calls: the first sees buttons and is still clicking when the second
  sees none; the second resolves the promise and clears both timers.
\<close>

lemma notification_wait_overlapping_polls:
  "notifyRun [NotifyIntervalFires, NotifyIntervalFires, PollSees ButtonsFound, PollSees NoButtons]
     notifyPromise
   = Some \<lparr>notifyTimeout = False, notifyInterval = False, notifyResolved = True, foundAny = True,
           pollsStarted = 2, pollsInFlight = 0, pollsClicking = 1\<rparr>"
  by (simp add: notifyPromise_def)

end
